theory Spec2Isabelle
  imports Main "HOL-Library.Product_Lexorder" "HOL-Library.AList"
begin

section \<open>Calendar dates\<close>

text \<open>
  A \<^verbatim>\<open>datetime.date\<close> is the triple (year, month, day); Python compares two dates as it
  compares these triples, which is the lexicographic order on the product type. A date
  object always holds a day of the calendar between 0001-01-01 and 9999-12-31
  (\<open>valid_date\<close>).
\<close>

type_synonym date = "nat \<times> nat \<times> nat"

definition is_leap :: "nat \<Rightarrow> bool" where
  "is_leap y = (y mod 4 = 0 \<and> (y mod 100 \<noteq> 0 \<or> y mod 400 = 0))"

definition days_in_month :: "nat \<Rightarrow> nat \<Rightarrow> nat" where
  "days_in_month y m =
     (if m = 2 then (if is_leap y then 29 else 28)
      else if m = 4 \<or> m = 6 \<or> m = 9 \<or> m = 11 then 30 else 31)"

definition valid_date :: "date \<Rightarrow> bool" where
  "valid_date = (\<lambda>(y, m, d).
     1 \<le> y \<and> y \<le> 9999 \<and> 1 \<le> m \<and> m \<le> 12 \<and> 1 \<le> d \<and> d \<le> days_in_month y m)"

definition date_max :: date where
  "date_max = (9999, 12, 31)"

datatype error =
    ValueError string
  | OverflowError
  | NotImplementedError
  | ParseError

text \<open>\<^verbatim>\<open>date + timedelta(days=1)\<close>: the next day of the calendar; past 9999-12-31 Python
  raises OverflowError.\<close>

definition add_one_day :: "date \<Rightarrow> error + date" where
  "add_one_day = (\<lambda>(y, m, d).
     if d < days_in_month y m then Inr (y, m, d + 1)
     else if m < 12 then Inr (y, m + 1, 1)
     else if y < 9999 then Inr (y + 1, 1, 1)
     else Inl OverflowError)"

text \<open>A number that grows with every \<open>add_one_day\<close>, on every triple; it bounds the
  date loops of the program.\<close>

definition date_rank :: "date \<Rightarrow> nat" where
  "date_rank = (\<lambda>(y, m, d). y * 400 + min m 12 * 32 + min d 32)"

lemma days_in_month_le: "days_in_month y m \<le> 31"
  by (simp add: days_in_month_def)

lemma days_in_month_ge: "28 \<le> days_in_month y m"
  by (simp add: days_in_month_def)

lemma add_one_day_rank:
  "add_one_day d = Inr d' \<Longrightarrow> date_rank d < date_rank d'"
  using days_in_month_le [of "fst d" "fst (snd d)"]
  by (cases d) (auto simp: add_one_day_def date_rank_def min_def split: if_splits)

lemma le_date_rank:
  "(d :: date) \<le> e \<Longrightarrow> date_rank d < fst e * 400 + 417"
  by (cases d; cases e) (auto simp: date_rank_def min_def)

lemma days_loop_measure:
  assumes "(s :: date) \<le> e" and "add_one_day s = Inr s'"
  shows "fst e * 400 + 417 - date_rank s' < fst e * 400 + 417 - date_rank s"
  using add_one_day_rank [OF assms(2)] le_date_rank [OF assms(1)] by arith

text \<open>The days from \<open>s\<close> to \<open>e\<close>, both included, as the loops
  \<^verbatim>\<open>while date <= end: ...; date += timedelta(days=1)\<close> visit them.\<close>

function days_from :: "date \<Rightarrow> date \<Rightarrow> date list" where
  "days_from s e =
     (if s \<le> e
      then s # (case add_one_day s of Inl _ \<Rightarrow> [] | Inr s' \<Rightarrow> days_from s' e)
      else [])"
  by pat_completeness auto
termination
  by (relation "measure (\<lambda>(s, e). fst e * 400 + 417 - date_rank s)")
     (simp_all add: days_loop_measure)

declare days_from.simps [simp del]

lemma valid_date_le_max: "valid_date d \<Longrightarrow> d \<le> date_max"
  using days_in_month_le [of "fst d" "fst (snd d)"]
  by (cases d) (auto simp: valid_date_def date_max_def)

lemma add_one_day_Inl:
  "valid_date d \<Longrightarrow> add_one_day d = Inl e \<Longrightarrow> d = date_max \<and> e = OverflowError"
  by (cases d)
     (auto simp: valid_date_def date_max_def add_one_day_def days_in_month_def
           split: if_splits)

lemma add_one_day_max: "add_one_day date_max = Inl OverflowError"
  by (simp add: date_max_def add_one_day_def days_in_month_def)

lemma add_one_day_valid: "valid_date d \<Longrightarrow> add_one_day d = Inr d' \<Longrightarrow> valid_date d'"
  using days_in_month_ge [of "fst d" "Suc (fst (snd d))"] days_in_month_ge [of "Suc (fst d)" 1]
  by (cases d) (auto simp: valid_date_def add_one_day_def split: if_splits)

lemma add_one_day_less: "valid_date d \<Longrightarrow> add_one_day d = Inr d' \<Longrightarrow> d < d'"
  by (cases d) (auto simp: valid_date_def add_one_day_def split: if_splits)

lemma nat_le_not_Suc_le: "(a::nat) \<le> b \<Longrightarrow> \<not> Suc a \<le> b \<Longrightarrow> a = b"
  by arith

lemma add_one_day_least:
  "valid_date d \<Longrightarrow> add_one_day d = Inr d' \<Longrightarrow> valid_date x \<Longrightarrow> d < x \<Longrightarrow> d' \<le> x"
  apply (cases d; cases x)
  apply (simp add: valid_date_def add_one_day_def split: if_splits)
    apply auto
   apply (metis nat_le_not_Suc_le not_le)
  apply (metis nat_le_not_Suc_le not_le)
  done

lemma days_from_step:
  assumes v: "valid_date s" and le: "s \<le> e" and nx: "add_one_day s = Inr s'"
  shows "insert s {d. valid_date d \<and> s' \<le> d \<and> d \<le> e} = {d. valid_date d \<and> s \<le> d \<and> d \<le> e}"
proof (rule set_eqI)
  fix x :: date
  have lt: "s < s'" using v nx by (rule add_one_day_less)
  show "x \<in> insert s {d. valid_date d \<and> s' \<le> d \<and> d \<le> e} \<longleftrightarrow> x \<in> {d. valid_date d \<and> s \<le> d \<and> d \<le> e}"
  proof
    assume "x \<in> insert s {d. valid_date d \<and> s' \<le> d \<and> d \<le> e}"
    then have "x = s \<or> (valid_date x \<and> s' \<le> x \<and> x \<le> e)" by blast
    then show "x \<in> {d. valid_date d \<and> s \<le> d \<and> d \<le> e}"
    proof
      assume "x = s" with v le show ?thesis by blast
    next
      assume h: "valid_date x \<and> s' \<le> x \<and> x \<le> e"
      then have "s' \<le> x" by blast
      with lt have "s < x" by (rule less_le_trans)
      then have "s \<le> x" by (rule less_imp_le)
      with h show ?thesis by blast
    qed
  next
    assume "x \<in> {d. valid_date d \<and> s \<le> d \<and> d \<le> e}"
    then have h: "valid_date x" "s \<le> x" "x \<le> e" by blast+
    show "x \<in> insert s {d. valid_date d \<and> s' \<le> d \<and> d \<le> e}"
    proof (cases "x = s")
      case True then show ?thesis by blast
    next
      case False
      with h(2) have "s < x" by (simp only: le_less) blast
      then have "s' \<le> x" using v nx h(1) add_one_day_least by blast
      with h show ?thesis by blast
    qed
  qed
qed

lemma set_days_from:
  "valid_date s \<Longrightarrow> set (days_from s e) = {d. valid_date d \<and> s \<le> d \<and> d \<le> e}"
proof (induction s e rule: days_from.induct)
  case (1 s e)
  show ?case
  proof (cases "s \<le> e")
    case False
    have "days_from s e = []" using False by (simp add: days_from.simps [of s e])
    moreover have "{d. valid_date d \<and> s \<le> d \<and> d \<le> e} = {}"
    proof -
      have "\<And>d. s \<le> d \<Longrightarrow> d \<le> e \<Longrightarrow> False"
      proof -
        fix d assume "s \<le> d" "d \<le> e"
        then have "s \<le> e" by (rule order_trans)
        with False show False by (rule notE)
      qed
      then show ?thesis by blast
    qed
    ultimately show ?thesis by simp
  next
    case le: True
    show ?thesis
    proof (cases "add_one_day s")
      case (Inl err)
      with 1(2) have smax: "s = date_max" by (simp add: add_one_day_Inl)
      have "days_from s e = [s]" using Inl le by (simp add: days_from.simps [of s e])
      moreover have "{d. valid_date d \<and> s \<le> d \<and> d \<le> e} = {s}"
      proof (rule set_eqI)
        fix x :: date
        show "x \<in> {d. valid_date d \<and> s \<le> d \<and> d \<le> e} \<longleftrightarrow> x \<in> {s}"
        proof
          assume "x \<in> {d. valid_date d \<and> s \<le> d \<and> d \<le> e}"
          then have "valid_date x" "s \<le> x" by blast+
          from valid_date_le_max [OF this(1)] have "x \<le> s" unfolding smax .
          then have "x = s" using \<open>s \<le> x\<close> by (rule order_antisym)
          then show "x \<in> {s}" by blast
        next
          assume "x \<in> {s}"
          then have "x = s" by blast
          with 1(2) le show "x \<in> {d. valid_date d \<and> s \<le> d \<and> d \<le> e}" by blast
        qed
      qed
      ultimately show ?thesis by simp
    next
      case (Inr s')
      have v: "valid_date s'" using 1(2) Inr by (rule add_one_day_valid)
      have IH: "set (days_from s' e) = {d. valid_date d \<and> s' \<le> d \<and> d \<le> e}"
        using 1(1) [OF le Inr v] .
      have "days_from s e = s # days_from s' e"
        using le Inr by (simp add: days_from.simps [of s e])
      then have "set (days_from s e) = insert s (set (days_from s' e))" by simp
      also have "\<dots> = {d. valid_date d \<and> s \<le> d \<and> d \<le> e}"
        unfolding IH using 1(2) le Inr by (rule days_from_step)
      finally show ?thesis .
    qed
  qed
qed

lemma sorted_days_from:
  "valid_date s \<Longrightarrow> sorted_wrt (<) (days_from s e)"
proof (induction s e rule: days_from.induct)
  case (1 s e)
  show ?case
  proof (cases "s \<le> e")
    case False
    then show ?thesis by (simp add: days_from.simps [of s e])
  next
    case le: True
    show ?thesis
    proof (cases "add_one_day s")
      case (Inl err)
      then show ?thesis using le by (simp add: days_from.simps [of s e])
    next
      case (Inr s')
      have v: "valid_date s'" using 1(2) Inr by (rule add_one_day_valid)
      have IH: "sorted_wrt (<) (days_from s' e)" using 1(1) [OF le Inr v] .
      have lt: "s < s'" using 1(2) Inr by (rule add_one_day_less)
      have "\<And>x. x \<in> set (days_from s' e) \<Longrightarrow> s < x"
      proof -
        fix x assume "x \<in> set (days_from s' e)"
        then have "s' \<le> x" unfolding set_days_from [OF v] by blast
        with lt show "s < x" by (rule less_le_trans)
      qed
      with IH have "sorted_wrt (<) (s # days_from s' e)" by simp
      then show ?thesis using le Inr by (simp add: days_from.simps [of s e])
    qed
  qed
qed

lemma days_from_eq:
  assumes "valid_date s"
  shows "days_from s e = sorted_list_of_set {d. valid_date d \<and> s \<le> d \<and> d \<le> e}"
proof -
  have "sorted_list_of_set (set (days_from s e)) = days_from s e"
    using sorted_days_from [OF assms, of e]
    by (simp add: strict_sorted_iff sorted_list_of_set.idem_if_sorted_distinct)
  then show ?thesis unfolding set_days_from [OF assms] by (rule sym)
qed

section \<open>Date texts and file names\<close>

text \<open>
  A character of the model is one of the 256 values of \<^typ>\<open>char\<close>; the first 128 are the
  ASCII characters. Among these the decimal digits, which \<^verbatim>\<open>\d\<close> of a regular
  expression and \<^verbatim>\<open>strptime\<close> accept, are the ten ASCII digits. Python's \<^verbatim>\<open>\d\<close>
  also matches the decimal digits of other scripts, which the model does not have: the
  statements about the cache scan are for directories whose file names are ASCII
  (\<open>ascii_names\<close>).
\<close>

definition ascii :: "string \<Rightarrow> bool" where
  "ascii s = (\<forall>c \<in> set s. \<not> digit7 c)"

definition is_digit :: "char \<Rightarrow> bool" where
  "is_digit c = (c \<in> set ''0123456789'')"

definition digit_val :: "char \<Rightarrow> nat" where
  "digit_val c = length (takeWhile (\<lambda>x. x \<noteq> c) ''0123456789'')"

definition digit_char :: "nat \<Rightarrow> char" where
  "digit_char n = ''0123456789'' ! (n mod 10)"

definition zfill2 :: "nat \<Rightarrow> string" where
  "zfill2 n = [digit_char (n div 10), digit_char n]"

definition zfill4 :: "nat \<Rightarrow> string" where
  "zfill4 n = [digit_char (n div 1000), digit_char (n div 100), digit_char (n div 10), digit_char n]"

text \<open>
  \<^verbatim>\<open>date.strftime("%Y-%m-%d")\<close>, as the C library of Linux gives it: month and day
  have two digits, the year is not padded, so that a year before 1000 has fewer than
  four digits (\<^verbatim>\<open>date(999, 1, 1)\<close> gives \<^verbatim>\<open>999-01-01\<close>).
\<close>

definition year_text :: "nat \<Rightarrow> string" where
  "year_text y =
     (if 1000 \<le> y then zfill4 y
      else if 100 \<le> y then [digit_char (y div 100), digit_char (y div 10), digit_char y]
      else if 10 \<le> y then [digit_char (y div 10), digit_char y]
      else [digit_char y])"

definition strftime :: "date \<Rightarrow> string" where
  "strftime = (\<lambda>(y, m, d). year_text y @ ''-'' @ zfill2 m @ ''-'' @ zfill2 d)"

text \<open>The group \<^verbatim>\<open>(\d{4}-\d{2}-\d{2})\<close> of the file-name patterns.\<close>

fun is_date_text :: "string \<Rightarrow> bool" where
  "is_date_text [y1, y2, y3, y4, s1, m1, m2, s2, d1, d2] =
     (is_digit y1 \<and> is_digit y2 \<and> is_digit y3 \<and> is_digit y4 \<and> s1 = CHR ''-'' \<and>
      is_digit m1 \<and> is_digit m2 \<and> s2 = CHR ''-'' \<and> is_digit d1 \<and> is_digit d2)"
| "is_date_text _ = False"

text \<open>
  \<^verbatim>\<open>datetime.strptime(text, "%Y-%m-%d").date()\<close> on a text the pattern let through:
  \<open>None\<close> stands for the ValueError of a year 0000, a month 00 or above 12, or a day
  that the month does not have. (The program only parses texts of this shape here; the
  start and end dates of a request are taken as dates already parsed.)
\<close>

fun strptime :: "string \<Rightarrow> date option" where
  "strptime [y1, y2, y3, y4, s1, m1, m2, s2, d1, d2] =
     (if is_date_text [y1, y2, y3, y4, s1, m1, m2, s2, d1, d2]
      then (let y = digit_val y1 * 1000 + digit_val y2 * 100 + digit_val y3 * 10 + digit_val y4;
                m = digit_val m1 * 10 + digit_val m2;
                d = digit_val d1 * 10 + digit_val d2
            in if valid_date (y, m, d) then Some (y, m, d) else None)
      else None)"
| "strptime _ = None"

text \<open>
  \<^verbatim>\<open>re.compile(rf"^{re.escape(prefix)}(\d{4}-\d{2}-\d{2})\.csv$").match(name)\<close>: the
  matched group, if the name matches. In Python \<^verbatim>\<open>$\<close> also matches just before a
  newline that ends the text.
\<close>

definition pattern_match :: "string \<Rightarrow> string \<Rightarrow> string option" where
  "pattern_match prefix name =
     (if take (length prefix) name = prefix
      then (let rest = drop (length prefix) name; g = take 10 rest; tl = drop 10 rest
            in if is_date_text g \<and> (tl = ''.csv'' \<or> tl = ''.csv'' @ [CHR 0x0A])
               then Some g else None)
      else None)"

text \<open>
  Matching a file name against a glob pattern of one path component: \<^verbatim>\<open>*\<close> stands
  for any run of characters, \<^verbatim>\<open>?\<close> for any one character, every other character for
  itself. Bracket expressions, the refusal of \<^verbatim>\<open>**\<close> inside a component and
  patterns of several components are not modelled: the statements below are about
  symbols and intervals without the characters \<^verbatim>\<open>*\<close>, \<^verbatim>\<open>?\<close>, \<^verbatim>\<open>[\<close> and
  \<^verbatim>\<open>/\<close> (\<open>plain\<close>).
\<close>

fun fnmatch :: "string \<Rightarrow> string \<Rightarrow> bool" where
  "fnmatch [] s = (s = [])"
| "fnmatch (p # ps) s =
     (if p = CHR ''*''
      then (fnmatch ps s \<or> (case s of [] \<Rightarrow> False | _ # t \<Rightarrow> fnmatch (p # ps) t))
      else (case s of [] \<Rightarrow> False | c # t \<Rightarrow> (p = CHR ''?'' \<or> p = c) \<and> fnmatch ps t))"

definition plain :: "string \<Rightarrow> bool" where
  "plain s =
     (\<forall>c \<in> set s. c \<noteq> CHR ''*'' \<and> c \<noteq> CHR ''?'' \<and> c \<noteq> CHR ''['' \<and> c \<noteq> CHR ''/'')"

section \<open>The cache directory and the cache scan\<close>

text \<open>
  A directory is the list of its entries, name and content; a file system gives the
  directory at each path, a path being the list of its components (a directory that was
  never created has no entries).
\<close>

type_synonym directory = "(string \<times> string) list"
type_synonym path = "string list"
type_synonym filesystem = "path \<Rightarrow> directory"

text \<open>\<^verbatim>\<open>not interval\<close>: the interval is \<^verbatim>\<open>None\<close> or the empty string.\<close>

definition falsy :: "string option \<Rightarrow> bool" where
  "falsy interval = (case interval of None \<Rightarrow> True | Some i \<Rightarrow> i = [])"

text \<open>The loop of \<^verbatim>\<open>get_existing_dates\<close> over the result of
  \<^verbatim>\<open>local_path.glob(glob_pattern)\<close>, with the regular expression made from \<open>prefix\<close>.\<close>

definition scan_dates :: "string \<Rightarrow> directory \<Rightarrow> date set" where
  "scan_dates prefix dir =
     set (List.map_filter strptime
           (List.map_filter (pattern_match prefix)
             (filter (fnmatch (prefix @ ''*.csv'')) (map fst dir))))"

text \<open>\<^verbatim>\<open>Path.glob\<close> refuses a pattern that starts with \<^verbatim>\<open>/\<close>, with
  NotImplementedError, when the loop asks for the first file.\<close>

definition glob_scan :: "string \<Rightarrow> directory \<Rightarrow> error + date set" where
  "glob_scan prefix dir =
     (if take 1 prefix = ''/'' then Inl NotImplementedError else Inr (scan_dates prefix dir))"

definition get_existing_dates ::
  "directory \<Rightarrow> string \<Rightarrow> string option \<Rightarrow> string \<Rightarrow> error + date set" where
  "get_existing_dates local_path data_type interval symbol =
     (if data_type = ''klines''
      then (if falsy interval
            then Inl (ValueError ''interval is required for klines data_type'')
            else glob_scan (symbol @ ''-'' @ the interval @ ''-'') local_path)
      else glob_scan (symbol @ ''-'') local_path)"

text \<open>The names of all entries of a directory are ASCII.\<close>

definition ascii_names :: "directory \<Rightarrow> bool" where
  "ascii_names dir = (\<forall>name \<in> fst ` set dir. ascii name)"

section \<open>The world: file system and recorded input and output\<close>

text \<open>
  Every operation of the acquisition on the file system or the network is recorded, in
  order, beside the file system it leaves. Path components are taken to be plain names;
  joining an empty component to a path leaves the path as it is, as \<^verbatim>\<open>pathlib\<close> does.
\<close>

datatype io_event =
    Mkdir path
  | Glob path
  | Exists path string
  | HttpGet string
  | OpenWrite path string
  | WriteAll path string
  | Sleep nat

record world =
  files :: filesystem
  events :: "io_event list"

definition emit :: "io_event \<Rightarrow> world \<Rightarrow> world" where
  "emit ev w = w\<lparr>events := events w @ [ev]\<rparr>"

definition pjoin :: "path \<Rightarrow> string \<Rightarrow> path" where
  "pjoin p c = (if c = [] then p else p @ [c])"

definition file_exists :: "world \<Rightarrow> path \<Rightarrow> string \<Rightarrow> bool" where
  "file_exists w dir name = (map_of (files w dir) name \<noteq> None)"

definition put_file :: "path \<Rightarrow> string \<Rightarrow> string \<Rightarrow> world \<Rightarrow> world" where
  "put_file dir name content w =
     w\<lparr>files := (files w)(dir := AList.update name content (files w dir))\<rparr>"

text \<open>\<^verbatim>\<open>open(out_path, "wb")\<close> creates the file, or empties it if it is there.\<close>

definition open_write :: "path \<Rightarrow> string \<Rightarrow> world \<Rightarrow> world" where
  "open_write dir name w = put_file dir name [] (emit (OpenWrite dir name) w)"

text \<open>\<^verbatim>\<open>f.write(data)\<close> and the closing of the file, as one step.\<close>

definition write_all :: "path \<Rightarrow> string \<Rightarrow> string \<Rightarrow> world \<Rightarrow> world" where
  "write_all dir name data w = put_file dir name data (emit (WriteAll dir name) w)"

section \<open>Fetching one archive\<close>

text \<open>
  What the remote store answers to the \<open>n\<close>-th request for a URL. The body of a
  200 answer is described by what \<^verbatim>\<open>zipfile\<close> makes of it: \<open>BadArchive\<close> fails
  before the destination is opened (\<^verbatim>\<open>ZipFile(...)\<close> raises, or the archive has no
  member, or the member cannot be opened); \<open>BadPayload\<close> fails in
  \<^verbatim>\<open>csv_file.read()\<close>, which the program evaluates after
  \<^verbatim>\<open>open(out_path, "wb")\<close>; \<open>Payload data\<close> decompresses to \<open>data\<close>.
  \<open>ConnectionError\<close> is an exception of the request itself.
\<close>

datatype zip_body = BadArchive | BadPayload | Payload string

datatype response = ConnectionError | Http nat zip_body

type_synonym remote = "string \<Rightarrow> nat \<Rightarrow> response"

text \<open>The loop \<^verbatim>\<open>for attempt in range(1, retries + 1)\<close> of
  \<^verbatim>\<open>download_and_save_csv\<close>, with \<open>left\<close> attempts to go.\<close>

fun attempt_loop ::
  "remote \<Rightarrow> string \<Rightarrow> path \<Rightarrow> string \<Rightarrow> nat \<Rightarrow> nat \<Rightarrow> world \<Rightarrow> bool \<times> world" where
  "attempt_loop remote url dir name attempt 0 w = (False, w)"
| "attempt_loop remote url dir name attempt (Suc left) w =
     (let w1 = emit (HttpGet url) w in
      case remote url attempt of
        ConnectionError \<Rightarrow>
          attempt_loop remote url dir name (attempt + 1) left (emit (Sleep 1) w1)
      | Http status body \<Rightarrow>
          if status = 200
          then (case body of
                  BadArchive \<Rightarrow>
                    attempt_loop remote url dir name (attempt + 1) left (emit (Sleep 1) w1)
                | BadPayload \<Rightarrow>
                    attempt_loop remote url dir name (attempt + 1) left
                      (emit (Sleep 1) (open_write dir name w1))
                | Payload data \<Rightarrow> (True, write_all dir name data (open_write dir name w1)))
          else attempt_loop remote url dir name (attempt + 1) left (emit (Sleep 1) w1))"

definition download_and_save_csv ::
  "remote \<Rightarrow> string \<Rightarrow> path \<Rightarrow> string \<Rightarrow> int \<Rightarrow> world \<Rightarrow> bool \<times> world" where
  "download_and_save_csv remote url dir name retries w =
     attempt_loop remote url dir name 1 (nat retries) w"

section \<open>The acquisition run\<close>

datatype 'a result = Return 'a | Raise error | Hang

text \<open>An interval inside an f-string: \<^verbatim>\<open>None\<close> prints as its name.\<close>

definition fmt :: "string option \<Rightarrow> string" where
  "fmt interval = (case interval of None \<Rightarrow> ''None'' | Some i \<Rightarrow> i)"

text \<open>Step 1 of \<^verbatim>\<open>download_binance_data\<close>: the dates of the range that the scan did
  not find.\<close>

function missing_loop :: "date \<Rightarrow> date \<Rightarrow> date set \<Rightarrow> date list \<Rightarrow> error + date list" where
  "missing_loop date end existing_dates missing_dates =
     (if date \<le> end
      then (let missing_dates' =
                  (if date \<notin> existing_dates then missing_dates @ [date] else missing_dates)
            in case add_one_day date of
                 Inl e \<Rightarrow> Inl e
               | Inr date' \<Rightarrow> missing_loop date' end existing_dates missing_dates')
      else Inr missing_dates)"
  by pat_completeness auto
termination
  by (relation "measure (\<lambda>(s, e, _). fst e * 400 + 417 - date_rank s)")
     (simp_all add: days_loop_measure)

declare missing_loop.simps [simp del]

text \<open>Step 2: one task for each missing date whose destination is not there, as
  (URL, name of the destination file).\<close>

fun build_tasks ::
  "string \<Rightarrow> string option \<Rightarrow> string \<Rightarrow> string \<Rightarrow> path \<Rightarrow> date list \<Rightarrow> world
     \<Rightarrow> (string \<times> string) list \<times> world" where
  "build_tasks symbol interval data_type remote_path local_path [] w = ([], w)"
| "build_tasks symbol interval data_type remote_path local_path (date # dates) w =
     (let date_str = strftime date;
          stem = (if data_type = ''klines''
                  then symbol @ ''-'' @ fmt interval @ ''-'' @ date_str
                  else symbol @ ''-'' @ date_str);
          filename = stem @ ''.zip'';
          out_filename = stem @ ''.csv'';
          url = remote_path @ filename;
          rest = build_tasks symbol interval data_type remote_path local_path dates
                   (emit (Exists local_path out_filename) w)
      in if file_exists w local_path out_filename then rest
         else ((url, out_filename) # fst rest, snd rest))"

text \<open>
  \<^verbatim>\<open>asyncio.gather(*tasks)\<close>. The tasks write different files and the remote store
  answers a request by its URL and its number alone, so the tasks are run one after the
  other here; \<open>download_and_save_csv\<close> is called with its default of 3 retries.
\<close>

fun gather :: "remote \<Rightarrow> path \<Rightarrow> (string \<times> string) list \<Rightarrow> world \<Rightarrow> world" where
  "gather remote dir [] w = w"
| "gather remote dir ((url, name) # tasks) w =
     gather remote dir tasks (snd (download_and_save_csv remote url dir name 3 w))"

text \<open>
  \<^verbatim>\<open>asyncio.Semaphore(n)\<close> raises ValueError for a negative \<open>n\<close>; with \<open>n = 0\<close>
  no task ever enters and the gathering does not return (\<open>Hang\<close>).
\<close>

definition download_binance_data ::
  "remote \<Rightarrow> string \<Rightarrow> date \<Rightarrow> date \<Rightarrow> string \<Rightarrow> string \<Rightarrow> string \<Rightarrow> string \<Rightarrow> string
     \<Rightarrow> string option \<Rightarrow> string \<Rightarrow> int \<Rightarrow> world \<Rightarrow> unit result \<times> world" where
  "download_binance_data remote symbol start end base_url instrument market timeframe
       data_type interval output_dir max_concurrent_downloads w =
     (if data_type \<noteq> ''klines'' \<and> data_type \<noteq> ''bookTicker''
      then (Raise (ValueError ''data_type must be klines or bookTicker''), w)
      else if data_type = ''klines'' \<and> falsy interval
      then (Raise (ValueError ''interval is required for klines data_type''), w)
      else
        (let klines = (data_type = ''klines'' \<and> \<not> falsy interval);
             base = foldl pjoin [output_dir] [instrument, market, timeframe, data_type, symbol];
             local_path = (if klines then pjoin base (fmt interval) else base);
             remote_base = base_url @ instrument @ ''/'' @ market @ ''/'' @ timeframe @ ''/''
                             @ data_type @ ''/'' @ symbol @ ''/'';
             remote_path = (if klines then remote_base @ fmt interval @ ''/'' else remote_base);
             w1 = emit (Mkdir local_path) w
         in case get_existing_dates (files w1 local_path) data_type interval symbol of
              Inl e \<Rightarrow> (Raise e, w1)
            | Inr existing_dates \<Rightarrow>
                (let w2 = emit (Glob local_path) w1 in
                 case missing_loop start end existing_dates [] of
                   Inl e \<Rightarrow> (Raise e, w2)
                 | Inr missing_dates \<Rightarrow>
                     if missing_dates = [] then (Return (), w2)
                     else if max_concurrent_downloads < 0
                     then (Raise (ValueError ''Semaphore initial value must be >= 0''), w2)
                     else
                       (let built = build_tasks symbol interval data_type remote_path
                                      local_path missing_dates w2;
                            tasks = fst built;
                            w3 = snd built
                        in if tasks = [] then (Return (), w3)
                           else if max_concurrent_downloads = 0 then (Hang, w3)
                           else (Return (), gather remote local_path tasks w3)))))"

section \<open>Assembling the dataset\<close>

text \<open>
  \<^verbatim>\<open>pd.read_csv\<close> is a parameter: it gives the rows of a file's content, or
  \<open>None\<close> where pandas raises (an empty file, a malformed one). The loop of step 2 of
  \<^verbatim>\<open>get_combined_dataframe\<close> only reads the directory.
\<close>

function combine_loop ::
  "(string \<Rightarrow> 'r list option) \<Rightarrow> directory \<Rightarrow> string \<Rightarrow> string \<Rightarrow> date \<Rightarrow> date
     \<Rightarrow> 'r list list \<Rightarrow> error + 'r list list" where
  "combine_loop read_csv dir symbol interval date end dfs =
     (if date \<le> end
      then (let filename = symbol @ ''-'' @ interval @ ''-'' @ strftime date @ ''.csv'' in
            case map_of dir filename of
              Some content \<Rightarrow>
                (case read_csv content of
                   None \<Rightarrow> Inl ParseError
                 | Some df \<Rightarrow>
                     (case add_one_day date of
                        Inl e \<Rightarrow> Inl e
                      | Inr date' \<Rightarrow>
                          combine_loop read_csv dir symbol interval date' end (dfs @ [df])))
            | None \<Rightarrow>
                (case add_one_day date of
                   Inl e \<Rightarrow> Inl e
                 | Inr date' \<Rightarrow> combine_loop read_csv dir symbol interval date' end dfs))
      else Inr dfs)"
  by pat_completeness auto
termination
  by (relation "measure (\<lambda>(_, _, _, _, s, e, _). fst e * 400 + 417 - date_rank s)")
     (simp_all add: days_loop_measure)

declare combine_loop.simps [simp del]

text \<open>Step 2 of \<^verbatim>\<open>get_combined_dataframe\<close>, on the cache directory.\<close>

definition combine_daily_csvs ::
  "(string \<Rightarrow> 'r list option) \<Rightarrow> directory \<Rightarrow> string \<Rightarrow> string \<Rightarrow> date \<Rightarrow> date
     \<Rightarrow> 'r list result" where
  "combine_daily_csvs read_csv dir symbol interval start end =
     (case combine_loop read_csv dir symbol interval start end [] of
        Inl e \<Rightarrow> Raise e
      | Inr dfs \<Rightarrow>
          if dfs = [] then Raise (ValueError ''No data found, exiting.'')
          else Return (concat dfs))"

definition get_combined_dataframe ::
  "(string \<Rightarrow> 'r list option) \<Rightarrow> remote \<Rightarrow> string \<Rightarrow> string \<Rightarrow> date \<Rightarrow> date \<Rightarrow> string
     \<Rightarrow> string \<Rightarrow> string \<Rightarrow> string \<Rightarrow> string \<Rightarrow> int \<Rightarrow> world \<Rightarrow> 'r list result \<times> world" where
  "get_combined_dataframe read_csv remote symbol interval start end data_dir instrument
       market timeframe data_type max_concurrent_downloads w =
     (case download_binance_data remote symbol start end ''https://data.binance.vision/data/''
             instrument market timeframe data_type (Some interval) data_dir
             max_concurrent_downloads w of
        (Raise e, w') \<Rightarrow> (Raise e, w')
      | (Hang, w') \<Rightarrow> (Hang, w')
      | (Return _, w') \<Rightarrow>
          (combine_daily_csvs read_csv
             (files w' (foldl pjoin [data_dir]
                          [instrument, market, timeframe, data_type, symbol, interval]))
             symbol interval start end, w'))"

text \<open>The name of the file of a date in the cache directory, \<^verbatim>\<open>out_filename\<close> in
  \<^verbatim>\<open>download_binance_data\<close>.\<close>

definition artifact_name :: "string \<Rightarrow> string \<Rightarrow> string option \<Rightarrow> date \<Rightarrow> string" where
  "artifact_name data_type symbol interval date =
     (if data_type = ''klines''
      then symbol @ ''-'' @ fmt interval @ ''-'' @ strftime date
      else symbol @ ''-'' @ strftime date) @ ''.csv''"

text \<open>The text of ten characters that the cache scan reads as a date: year, month and
  day with four, two and two digits.\<close>

definition date_text :: "date \<Rightarrow> string" where
  "date_text = (\<lambda>(y, m, d). zfill4 y @ ''-'' @ zfill2 m @ ''-'' @ zfill2 d)"

text \<open>What stands before the date in a file name.\<close>

definition name_prefix :: "string \<Rightarrow> string \<Rightarrow> string option \<Rightarrow> string" where
  "name_prefix data_type symbol interval =
     (if data_type = ''klines'' then symbol @ ''-'' @ fmt interval @ ''-'' else symbol @ ''-'')"

text \<open>The cache scan and step 1 of \<^verbatim>\<open>download_binance_data\<close> together: the missing
  days of a range.\<close>

definition missing_days ::
  "directory \<Rightarrow> string \<Rightarrow> string option \<Rightarrow> string \<Rightarrow> date \<Rightarrow> date \<Rightarrow> error + date list" where
  "missing_days local_path data_type interval symbol start end =
     (case get_existing_dates local_path data_type interval symbol of
        Inl e \<Rightarrow> Inl e
      | Inr existing_dates \<Rightarrow> missing_loop start end existing_dates [])"

text \<open>The file that the assembly reads for a date, if it is there.\<close>

definition day_file :: "directory \<Rightarrow> string \<Rightarrow> string \<Rightarrow> date \<Rightarrow> string option" where
  "day_file dir symbol interval date =
     map_of dir (symbol @ ''-'' @ interval @ ''-'' @ strftime date @ ''.csv'')"

text \<open>A world with no file and no recorded operation.\<close>

definition empty_world :: world where
  "empty_world = \<lparr>files = (\<lambda>_. []), events = []\<rparr>"

text \<open>An attempt that does not save the file: the request fails, the status is not 200, or
  the archive does not decompress.\<close>

definition attempt_fails :: "response \<Rightarrow> bool" where
  "attempt_fails r =
     (case r of
        ConnectionError \<Rightarrow> True
      | Http status body \<Rightarrow>
          status \<noteq> 200 \<or> (case body of Payload _ \<Rightarrow> False | _ \<Rightarrow> True))"

text \<open>What such an attempt does, in order: the request, the opening of the destination if
  the archive fails while it is read, the pause.\<close>

definition failed_attempt_events :: "string \<Rightarrow> path \<Rightarrow> string \<Rightarrow> response \<Rightarrow> io_event list" where
  "failed_attempt_events url dir name r =
     [HttpGet url] @ (if r = Http 200 BadPayload then [OpenWrite dir name] else []) @ [Sleep 1]"

text \<open>The loop of the assembly over a given list of days.\<close>

primrec combine_days ::
  "(string \<Rightarrow> 'r list option) \<Rightarrow> directory \<Rightarrow> string \<Rightarrow> string \<Rightarrow> date list
     \<Rightarrow> 'r list list \<Rightarrow> error + 'r list list" where
  "combine_days read_csv dir symbol interval [] dfs = Inr dfs"
| "combine_days read_csv dir symbol interval (d # ds) dfs =
     (case day_file dir symbol interval d of
        None \<Rightarrow> combine_days read_csv dir symbol interval ds dfs
      | Some content \<Rightarrow>
          (case read_csv content of
             None \<Rightarrow> Inl ParseError
           | Some df \<Rightarrow> combine_days read_csv dir symbol interval ds (dfs @ [df])))"

text \<open>The rows that the assembly takes from the file of a day: those of the file, none if
  the file is not there.\<close>

definition day_rows ::
  "(string \<Rightarrow> 'r list option) \<Rightarrow> directory \<Rightarrow> string \<Rightarrow> string \<Rightarrow> date \<Rightarrow> 'r list" where
  "day_rows read_csv dir symbol interval d =
     (case day_file dir symbol interval d of
        None \<Rightarrow> []
      | Some content \<Rightarrow> (case read_csv content of None \<Rightarrow> [] | Some df \<Rightarrow> df))"

text \<open>The file of a day is there and \<^verbatim>\<open>pd.read_csv\<close> raises on it.\<close>

definition unreadable ::
  "(string \<Rightarrow> 'r list option) \<Rightarrow> directory \<Rightarrow> string \<Rightarrow> string \<Rightarrow> date \<Rightarrow> bool" where
  "unreadable read_csv dir symbol interval d =
     (case day_file dir symbol interval d of
        None \<Rightarrow> False
      | Some content \<Rightarrow> read_csv content = None)"

section \<open>Digits\<close>

lemma digit_cases:
  "n < 10 \<Longrightarrow> n = 0 \<or> n = 1 \<or> n = 2 \<or> n = 3 \<or> n = 4 \<or> n = 5 \<or> n = 6 \<or> n = 7 \<or> n = 8 \<or> n = (9::nat)"
  by arith

lemma digit_char_props:
  assumes "n < 10"
  shows "is_digit (digit_char n) \<and> digit_val (digit_char n) = n"
  using digit_cases [OF assms]
  by (elim disjE) (simp_all add: is_digit_def digit_val_def digit_char_def)

lemma is_digit_props:
  assumes "is_digit c"
  shows "digit_val c < 10 \<and> digit_char (digit_val c) = c"
  using assms unfolding is_digit_def
  by (auto simp: digit_val_def digit_char_def)

lemma digit_char_mod: "digit_char (n mod 10) = digit_char n"
  by (simp add: digit_char_def)

lemma two_digits: "m \<le> 99 \<Longrightarrow> (m div 10) mod 10 * 10 + m mod 10 = (m::nat)"
proof -
  assume "m \<le> 99"
  then have "m div 10 < 10" by simp
  then have "(m div 10) mod 10 = m div 10" by simp
  then show ?thesis by simp
qed

lemma four_digits:
  assumes "y \<le> 9999"
  shows "(y div 1000) mod 10 * 1000 + (y div 100) mod 10 * 100 + (y div 10) mod 10 * 10 + y mod 10 = (y::nat)"
proof -
  have a: "y div 1000 < 10" using assms by simp
  have e0: "y = y div 10 * 10 + y mod 10" by simp
  have d1: "y div 10 div 10 = y div 100" using div_mult2_eq [of y 10 10] by simp
  have d2: "y div 100 div 10 = y div 1000" using div_mult2_eq [of y 100 10] by simp
  have e1: "y div 10 = y div 100 * 10 + (y div 10) mod 10"
    using div_mult_mod_eq [of "y div 10" 10] unfolding d1 by simp
  have e2: "y div 100 = y div 1000 * 10 + (y div 100) mod 10"
    using div_mult_mod_eq [of "y div 100" 10] unfolding d2 by simp
  have "(y div 1000) mod 10 = y div 1000" using a by simp
  then show ?thesis using e0 e1 e2 by linarith
qed

lemma digit_char_any: "is_digit (digit_char n) \<and> digit_val (digit_char n) = n mod 10"
  using digit_char_props [of "n mod 10"] by (simp add: digit_char_mod)

lemma valid_date_bounds: "valid_date (y, m, d) \<Longrightarrow> y \<le> 9999 \<and> m \<le> 99 \<and> d \<le> 99"
  using days_in_month_le [of y m] by (simp add: valid_date_def)

lemma strptime_date_text:
  assumes "valid_date d"
  shows "strptime (date_text d) = Some d"
proof -
  obtain y m dd where d: "d = (y, m, dd)" by (cases d)
  from assms have b: "y \<le> 9999" "m \<le> 99" "dd \<le> 99"
    using valid_date_bounds [of y m dd] unfolding d by simp_all
  show ?thesis
    using assms unfolding d
    by (simp add: date_text_def zfill4_def zfill2_def digit_char_any
                  four_digits [OF b(1)] two_digits [OF b(2)] two_digits [OF b(3)])
qed

lemma strftime_date_text: "1000 \<le> fst d \<Longrightarrow> strftime d = date_text d"
  by (cases d) (simp add: strftime_def date_text_def year_text_def)

lemma digit_char_low: "r < 10 \<Longrightarrow> digit_char (q * 10 + r) = digit_char r"
  by (simp add: digit_char_def)

lemma two_digits_back:
  assumes "a < 10" "b < (10::nat)"
  shows "zfill2 (a * 10 + b) = [digit_char a, digit_char b]"
proof -
  have "(a * 10 + b) div 10 = a" using assms by simp
  then show ?thesis using assms by (simp add: zfill2_def digit_char_low)
qed

lemma four_digits_back:
  assumes "a < 10" "b < 10" "c < 10" "e < (10::nat)"
  shows "zfill4 (a * 1000 + b * 100 + c * 10 + e) = [digit_char a, digit_char b, digit_char c, digit_char e]"
proof -
  let ?y = "a * 1000 + b * 100 + c * 10 + e"
  have q1: "?y div 1000 = a" using assms by (intro div_nat_eqI) simp_all
  have q2: "?y div 100 = a * 10 + b" using assms by (intro div_nat_eqI) simp_all
  have q3: "?y div 10 = (a * 10 + b) * 10 + c" using assms by (intro div_nat_eqI) simp_all
  have y: "?y = ((a * 10 + b) * 10 + c) * 10 + e" by simp
  have m4: "digit_char ?y = digit_char e"
    unfolding y using assms(4) by (rule digit_char_low)
  show ?thesis
    unfolding zfill4_def q1 q2 q3 m4
    by (simp only: digit_char_low [OF assms(2)] digit_char_low [OF assms(3)])
qed

lemma strptime_SomeD:
  assumes "strptime g = Some d"
  shows "is_date_text g \<and> valid_date d \<and> date_text d = g"
proof (cases g rule: strptime.cases)
  case (1 y1 y2 y3 y4 s1 m1 m2 s2 d1 d2)
  let ?y = "digit_val y1 * 1000 + digit_val y2 * 100 + digit_val y3 * 10 + digit_val y4"
  let ?m = "digit_val m1 * 10 + digit_val m2"
  let ?d = "digit_val d1 * 10 + digit_val d2"
  from assms have t: "is_date_text g" unfolding 1 by (simp split: if_splits)
  then have dg: "is_digit y1" "is_digit y2" "is_digit y3" "is_digit y4" "is_digit m1" "is_digit m2"
      "is_digit d1" "is_digit d2" and sep: "s1 = CHR ''-''" "s2 = CHR ''-''"
    unfolding 1 by simp_all
  from assms t have v: "valid_date (?y, ?m, ?d)" and d: "d = (?y, ?m, ?d)"
    unfolding 1 by (simp_all add: Let_def split: if_splits)
  have "zfill4 ?y = [y1, y2, y3, y4]"
    using dg by (simp add: four_digits_back is_digit_props)
  moreover have "zfill2 ?m = [m1, m2]"
    using dg by (simp add: two_digits_back is_digit_props)
  moreover have "zfill2 ?d = [d1, d2]"
    using dg by (simp add: two_digits_back is_digit_props)
  ultimately have "date_text d = g"
    unfolding d 1 date_text_def using sep by simp
  with t v d show ?thesis by simp
qed (use assms in simp_all)

section \<open>Glob patterns without glob characters\<close>

lemma plain_Cons:
  "plain (c # s) \<longleftrightarrow>
     c \<noteq> CHR ''*'' \<and> c \<noteq> CHR ''?'' \<and> c \<noteq> CHR ''['' \<and> c \<noteq> CHR ''/'' \<and> plain s"
  by (auto simp: plain_def)

lemma plain_Nil: "plain []"
  by (simp add: plain_def)

lemma plain_append: "plain (a @ b) \<longleftrightarrow> plain a \<and> plain b"
  by (auto simp: plain_def)

lemma fnmatch_plain: "plain p \<Longrightarrow> fnmatch p s \<longleftrightarrow> s = p"
proof (induction p arbitrary: s)
  case Nil
  show ?case by simp
next
  case (Cons c p)
  from Cons.prems have c: "c \<noteq> CHR ''*''" "c \<noteq> CHR ''?''" and p: "plain p"
    by (simp_all add: plain_Cons)
  show ?case
  proof (cases s)
    case Nil
    then show ?thesis using c by simp
  next
    case (Cons a t)
    then show ?thesis using c Cons.IH [OF p, of t] by auto
  qed
qed

lemma fnmatch_star: "plain suf \<Longrightarrow> fnmatch (CHR ''*'' # suf) s \<longleftrightarrow> (\<exists>mid. s = mid @ suf)"
proof (induction s)
  case Nil
  then show ?case by (auto simp: fnmatch_plain)
next
  case (Cons a t)
  have "fnmatch (CHR ''*'' # suf) (a # t) \<longleftrightarrow> fnmatch suf (a # t) \<or> fnmatch (CHR ''*'' # suf) t"
    by simp
  also have "\<dots> \<longleftrightarrow> a # t = suf \<or> (\<exists>mid. t = mid @ suf)"
    using Cons by (simp add: fnmatch_plain)
  also have "\<dots> \<longleftrightarrow> (\<exists>mid. a # t = mid @ suf)"
    by (metis append_Nil append_Cons append_eq_Cons_conv)
  finally show ?case .
qed

lemma fnmatch_prefix_star:
  "plain pre \<Longrightarrow> plain suf \<Longrightarrow> fnmatch (pre @ CHR ''*'' # suf) s \<longleftrightarrow> (\<exists>mid. s = pre @ mid @ suf)"
proof (induction pre arbitrary: s)
  case Nil
  then show ?case by (simp add: fnmatch_star del: fnmatch.simps)
next
  case (Cons c pre)
  from Cons.prems have c: "c \<noteq> CHR ''*''" "c \<noteq> CHR ''?''" and p: "plain pre"
    by (simp_all add: plain_Cons)
  show ?case
  proof (cases s)
    case Nil
    then show ?thesis using c by simp
  next
    case (Cons a t)
    then show ?thesis using c Cons.IH [OF p \<open>plain suf\<close>, of t] by auto
  qed
qed

section \<open>What the cache scan finds\<close>

lemma set_map_filter_iff: "y \<in> set (List.map_filter f xs) \<longleftrightarrow> (\<exists>x \<in> set xs. f x = Some y)"
  by (induction xs) (auto split: option.splits)

lemma is_date_text_length: "is_date_text g \<Longrightarrow> length g = 10"
  by (cases g rule: is_date_text.cases) simp_all

lemma pattern_match_iff:
  "pattern_match prefix name = Some g \<longleftrightarrow>
     is_date_text g \<and> (name = prefix @ g @ ''.csv'' \<or> name = prefix @ g @ ''.csv'' @ [CHR 0x0A])"
proof
  assume a: "pattern_match prefix name = Some g"
  let ?rest = "drop (length prefix) name"
  from a have p: "take (length prefix) name = prefix"
    by (simp add: pattern_match_def split: if_splits)
  from a p have g: "g = take 10 ?rest" and t: "is_date_text g"
    and tl: "drop 10 ?rest = ''.csv'' \<or> drop 10 ?rest = ''.csv'' @ [CHR 0x0A]"
    by (auto simp: pattern_match_def Let_def split: if_splits)
  have "name = take (length prefix) name @ ?rest" by (simp only: append_take_drop_id)
  also have "?rest = take 10 ?rest @ drop 10 ?rest" by (simp only: append_take_drop_id)
  finally have "name = take (length prefix) name @ take 10 ?rest @ drop 10 ?rest" .
  then have "name = prefix @ g @ drop 10 ?rest" unfolding p g .
  with t tl show "is_date_text g \<and> (name = prefix @ g @ ''.csv'' \<or> name = prefix @ g @ ''.csv'' @ [CHR 0x0A])"
    by metis
next
  assume a: "is_date_text g \<and> (name = prefix @ g @ ''.csv'' \<or> name = prefix @ g @ ''.csv'' @ [CHR 0x0A])"
  then have l: "length g = 10" by (simp add: is_date_text_length)
  from a l show "pattern_match prefix name = Some g"
    by (auto simp: pattern_match_def)
qed

lemma plain_csv: "plain ''.csv''"
  by (simp add: plain_def)

lemma glob_csv_iff:
  assumes "plain prefix"
  shows "fnmatch (prefix @ ''*.csv'') name \<longleftrightarrow> (\<exists>mid. name = prefix @ mid @ ''.csv'')"
  using fnmatch_prefix_star [OF assms plain_csv, of name] by simp

lemma newline_name_no_glob:
  assumes "plain prefix"
  shows "\<not> fnmatch (prefix @ ''*.csv'') (prefix @ g @ ''.csv'' @ [CHR 0x0A])"
proof
  assume "fnmatch (prefix @ ''*.csv'') (prefix @ g @ ''.csv'' @ [CHR 0x0A])"
  then obtain mid where "prefix @ g @ ''.csv'' @ [CHR 0x0A] = prefix @ mid @ ''.csv''"
    unfolding glob_csv_iff [OF assms] by blast
  then have "(g @ ''.csv'') @ [CHR 0x0A] = (mid @ ''.cs'') @ [CHR ''v'']" by simp
  then have "CHR 0x0A = CHR ''v''" by (simp only: append1_eq_conv)
  then show False by simp
qed

lemma scan_dates_iff:
  assumes "plain prefix"
  shows "d \<in> scan_dates prefix dir \<longleftrightarrow>
           valid_date d \<and> prefix @ date_text d @ ''.csv'' \<in> fst ` set dir"
proof
  assume "d \<in> scan_dates prefix dir"
  then have "\<exists>g name. strptime g = Some d \<and> pattern_match prefix name = Some g
      \<and> name \<in> fst ` set dir \<and> fnmatch (prefix @ ''*.csv'') name"
    by (fastforce simp: scan_dates_def set_map_filter_iff)
  then obtain g name where g: "strptime g = Some d"
    and pm: "pattern_match prefix name = Some g"
    and nm: "name \<in> fst ` set dir" and gl: "fnmatch (prefix @ ''*.csv'') name"
    by blast
  from strptime_SomeD [OF g] have v: "valid_date d" and sf: "date_text d = g" by simp_all
  from pm have "name = prefix @ g @ ''.csv'' \<or> name = prefix @ g @ ''.csv'' @ [CHR 0x0A]"
    unfolding pattern_match_iff by blast
  with gl newline_name_no_glob [OF assms, of g] have "name = prefix @ g @ ''.csv''" by blast
  with nm v sf show "valid_date d \<and> prefix @ date_text d @ ''.csv'' \<in> fst ` set dir" by simp
next
  assume a: "valid_date d \<and> prefix @ date_text d @ ''.csv'' \<in> fst ` set dir"
  let ?name = "prefix @ date_text d @ ''.csv''"
  from a have sp: "strptime (date_text d) = Some d" by (simp add: strptime_date_text)
  from strptime_SomeD [OF sp] have "is_date_text (date_text d)" by simp
  then have pm: "pattern_match prefix ?name = Some (date_text d)"
    unfolding pattern_match_iff by simp
  have gl: "fnmatch (prefix @ ''*.csv'') ?name"
    unfolding glob_csv_iff [OF assms] by blast
  from a gl have m1: "?name \<in> set (filter (fnmatch (prefix @ ''*.csv'')) (map fst dir))" by simp
  have m2: "date_text d \<in> set (List.map_filter (pattern_match prefix)
                 (filter (fnmatch (prefix @ ''*.csv'')) (map fst dir)))"
    by (rule iffD2 [OF set_map_filter_iff]) (use m1 pm in blast)
  show "d \<in> scan_dates prefix dir"
    unfolding scan_dates_def
    by (rule iffD2 [OF set_map_filter_iff]) (use m2 sp in blast)
qed

lemma plain_dash: "plain ''-''"
  by (simp add: plain_def)

lemma plain_no_root:
  assumes "plain symbol"
  shows "take 1 (symbol @ ''-'' @ rest) \<noteq> ''/''"
proof (cases symbol)
  case Nil
  then show ?thesis by simp
next
  case (Cons c t)
  with assms have "c \<noteq> CHR ''/''" by (simp add: plain_Cons)
  with Cons show ?thesis by simp
qed

lemma existing_dates_eq:
  assumes "plain symbol"
    and "data_type = ''klines'' \<longrightarrow> \<not> falsy interval \<and> plain (fmt interval)"
  shows "get_existing_dates dir data_type interval symbol =
           Inr {d. valid_date d \<and>
                   name_prefix data_type symbol interval @ date_text d @ ''.csv'' \<in> fst ` set dir}"
proof (cases "data_type = ''klines''")
  case True
  with assms(2) obtain i where i: "interval = Some i" "i \<noteq> []" "plain i"
    by (cases interval) (auto simp: falsy_def fmt_def)
  have p: "plain (symbol @ ''-'' @ i @ ''-'')"
    using assms(1) i(3) by (simp only: plain_append plain_dash simp_thms)
  have "get_existing_dates dir data_type interval symbol = Inr (scan_dates (symbol @ ''-'' @ i @ ''-'') dir)"
    using True i plain_no_root [OF assms(1), of "i @ ''-''"]
    by (simp add: get_existing_dates_def glob_scan_def falsy_def)
  also have "scan_dates (symbol @ ''-'' @ i @ ''-'') dir =
      {d. valid_date d \<and>
          name_prefix data_type symbol interval @ date_text d @ ''.csv'' \<in> fst ` set dir}"
    using scan_dates_iff [OF p, of _ dir] True i
    by (auto simp: name_prefix_def fmt_def)
  finally show ?thesis .
next
  case False
  have p: "plain (symbol @ ''-'')"
    using assms(1) by (simp only: plain_append plain_dash simp_thms)
  have "get_existing_dates dir data_type interval symbol = Inr (scan_dates (symbol @ ''-'') dir)"
    using False plain_no_root [OF assms(1), of "[]"]
    by (simp add: get_existing_dates_def glob_scan_def)
  also have "scan_dates (symbol @ ''-'') dir =
      {d. valid_date d \<and>
          name_prefix data_type symbol interval @ date_text d @ ''.csv'' \<in> fst ` set dir}"
    using scan_dates_iff [OF p, of _ dir] False
    by (auto simp: name_prefix_def)
  finally show ?thesis .
qed

lemma artifact_name_eq:
  "1000 \<le> fst d \<Longrightarrow>
     artifact_name data_type symbol interval d =
       name_prefix data_type symbol interval @ date_text d @ ''.csv''"
  by (simp add: artifact_name_def name_prefix_def strftime_date_text)

lemma date_le_fst: "(s :: date) \<le> d \<Longrightarrow> fst s \<le> fst d"
  by (cases s; cases d) (auto simp: less_eq_prod_def)

section \<open>The date loops\<close>


lemma no_overflow_step:
  assumes "valid_date s" "valid_date e" "e \<noteq> date_max" "s \<le> e"
  shows "\<exists>s'. add_one_day s = Inr s'"
proof (cases "add_one_day s")
  case (Inl err)
  with assms(1) have "s = date_max" by (simp add: add_one_day_Inl)
  with assms(4) have "date_max \<le> e" by simp
  with valid_date_le_max [OF assms(2)] have "e = date_max" by (rule order_antisym)
  with assms(3) show ?thesis by simp
next
  case (Inr s')
  then show ?thesis by blast
qed

lemma missing_loop_eq:
  assumes "valid_date s" "valid_date e" "e \<noteq> date_max"
  shows "missing_loop s e existing acc = Inr (acc @ filter (\<lambda>d. d \<notin> existing) (days_from s e))"
  using assms
proof (induction s e existing acc rule: missing_loop.induct)
  case (1 s e existing acc)
  show ?case
  proof (cases "s \<le> e")
    case False
    then show ?thesis
      by (simp add: missing_loop.simps [of s e] days_from.simps [of s e])
  next
    case True
    from no_overflow_step [OF 1(2) 1(3) 1(4) True] obtain s' where s': "add_one_day s = Inr s'"
      by blast
    have v: "valid_date s'" using 1(2) s' by (rule add_one_day_valid)
    let ?acc = "if s \<notin> existing then acc @ [s] else acc"
    have "missing_loop s e existing acc = missing_loop s' e existing ?acc"
      using True s' by (simp add: missing_loop.simps [of s e])
    also have "\<dots> = Inr (?acc @ filter (\<lambda>d. d \<notin> existing) (days_from s' e))"
      using 1(1) [OF True refl s' v 1(3) 1(4)] .
    also have "\<dots> = Inr (acc @ filter (\<lambda>d. d \<notin> existing) (days_from s e))"
      using True s' by (simp add: days_from.simps [of s e])
    finally show ?thesis .
  qed
qed

text \<open>The definitions that evaluate the cache scan on a given directory.\<close>

lemmas eval_simps = strftime_def year_text_def zfill4_def zfill2_def digit_char_def is_digit_def
  digit_val_def valid_date_def days_in_month_def is_leap_def pattern_match_def scan_dates_def
  glob_scan_def get_existing_dates_def falsy_def fmt_def add_one_day_def missing_days_def
  artifact_name_def plain_def date_max_def ascii_def ascii_names_def

section \<open>Argument checks\<close>

text \<open>
  Claim C10. A call of \<^verbatim>\<open>download_binance_data\<close> with a data type other than
  klines and bookTicker, or with klines and no interval (\<^verbatim>\<open>None\<close> or the empty
  string), raises ValueError and leaves the world as it was: no operation on the file
  system or the network is recorded, and no file is changed. The cache scan
  \<^verbatim>\<open>get_existing_dates\<close> raises ValueError when asked for klines without an interval.
\<close>

theorem C10_invalid_arguments:
  "((data_type \<noteq> ''klines'' \<and> data_type \<noteq> ''bookTicker'') \<or> (data_type = ''klines'' \<and> falsy interval)
      \<longrightarrow> (\<exists>msg. download_binance_data remote symbol start end base_url instrument market
                   timeframe data_type interval output_dir max_concurrent_downloads w
                 = (Raise (ValueError msg), w)))
   \<and> (falsy interval
      \<longrightarrow> (\<exists>msg. get_existing_dates local_path ''klines'' interval symbol = Inl (ValueError msg)))"
  by (simp add: download_binance_data_def get_existing_dates_def)

theorem C10_invalid_arguments_witness:
  "(''trades'' \<noteq> ''klines'' \<and> ''trades'' \<noteq> ''bookTicker'') \<and> falsy None
   \<and> (\<exists>msg. download_binance_data (\<lambda>_ _. ConnectionError) ''BTCUSDT'' (2024, 1, 1) (2024, 1, 2)
               ''https://data.binance.vision/data/'' ''futures'' ''um'' ''daily'' ''trades'' None
               ''data/binance/'' 10 empty_world
             = (Raise (ValueError msg), empty_world))
   \<and> (\<exists>msg. get_existing_dates [] ''klines'' None ''BTCUSDT'' = Inl (ValueError msg))"
  using C10_invalid_arguments [where data_type = "''trades''" and interval = None
      and remote = "\<lambda>_ _. ConnectionError" and symbol = "''BTCUSDT''" and start = "(2024, 1, 1)"
      and ?end = "(2024, 1, 2)" and base_url = "''https://data.binance.vision/data/''"
      and instrument = "''futures''" and market = "''um''" and timeframe = "''daily''"
      and output_dir = "''data/binance/''" and max_concurrent_downloads = 10
      and w = empty_world and local_path = "[]"]
  by (simp add: falsy_def)

section \<open>The cache index\<close>

text \<open>
  Claim C4. For a symbol and an interval without the characters \<^verbatim>\<open>*\<close>, \<^verbatim>\<open>?\<close>,
  \<^verbatim>\<open>[\<close> and \<^verbatim>\<open>/\<close>, and a cache directory whose entry names are ASCII, the cache scan
  returns a set of calendar dates, and a date from the year 1000 on is in it exactly
  when the directory has an entry with the name that the acquisition gives the file of
  that date, \<^verbatim>\<open>SYMBOL-INTERVAL-YYYY-MM-DD.csv\<close> for klines and
  \<^verbatim>\<open>SYMBOL-YYYY-MM-DD.csv\<close> otherwise. The content of the entry is never read: a file
  of zero bytes counts.
\<close>

theorem C4_present_by_name:
  assumes "plain symbol"
    and "data_type = ''klines'' \<longrightarrow> \<not> falsy interval \<and> plain (fmt interval)"
    and "ascii_names dir"
  shows "\<exists>existing. get_existing_dates dir data_type interval symbol = Inr existing
           \<and> (\<forall>d. valid_date d \<and> 1000 \<le> fst d \<longrightarrow>
                  (d \<in> existing \<longleftrightarrow> artifact_name data_type symbol interval d \<in> fst ` set dir))
           \<and> (\<forall>d. d \<in> existing \<longrightarrow> valid_date d)"
proof -
  let ?ex = "{d. valid_date d \<and>
                 name_prefix data_type symbol interval @ date_text d @ ''.csv'' \<in> fst ` set dir}"
  have 1: "get_existing_dates dir data_type interval symbol = Inr ?ex"
    using assms(1,2) by (rule existing_dates_eq)
  have 2: "d \<in> ?ex \<longleftrightarrow> artifact_name data_type symbol interval d \<in> fst ` set dir"
    if "valid_date d \<and> 1000 \<le> fst d" for d
    using that by (simp add: artifact_name_eq)
  have 3: "valid_date d" if "d \<in> ?ex" for d
    using that by simp
  from 1 2 3 show ?thesis by blast
qed

text \<open>An instance: a directory with one file of zero bytes and one foreign file.\<close>

theorem C4_present_by_name_witness:
  "plain ''BTCUSDT'' \<and> \<not> falsy (Some ''1h'') \<and> plain (fmt (Some ''1h''))
   \<and> ascii_names [(''BTCUSDT-1h-2024-01-02.csv'', []), (''notes.txt'', ''x'')]
   \<and> valid_date (2024, 1, 2) \<and> 1000 \<le> fst ((2024, 1, 2) :: date)
   \<and> (\<exists>existing.
         get_existing_dates [(''BTCUSDT-1h-2024-01-02.csv'', []), (''notes.txt'', ''x'')]
             ''klines'' (Some ''1h'') ''BTCUSDT'' = Inr existing
         \<and> ((2024, 1, 2) \<in> existing \<longleftrightarrow>
              artifact_name ''klines'' ''BTCUSDT'' (Some ''1h'') (2024, 1, 2)
                \<in> fst ` set [(''BTCUSDT-1h-2024-01-02.csv'', []), (''notes.txt'', ''x'')])
         \<and> (2024, 1, 2) \<in> existing)"
proof -
  let ?dir = "[(''BTCUSDT-1h-2024-01-02.csv'', []), (''notes.txt'', ''x'')]"
  have h: "plain ''BTCUSDT''" "\<not> falsy (Some ''1h'')" "plain (fmt (Some ''1h''))"
      "ascii_names ?dir" "valid_date (2024, 1, 2)" "1000 \<le> fst ((2024, 1, 2) :: date)"
    by (simp_all add: eval_simps)
  have n: "artifact_name ''klines'' ''BTCUSDT'' (Some ''1h'') (2024, 1, 2) \<in> fst ` set ?dir"
    by (simp add: eval_simps)
  from h n C4_present_by_name [of "''BTCUSDT''" "''klines''" "Some ''1h''" ?dir]
  show ?thesis by blast
qed

text \<open>A file of zero bytes at the expected path: its date is in the index, and no date
  of the range is missing.\<close>

theorem C4_counterexample:
  "get_existing_dates [(''BTCUSDT-1h-2024-01-01.csv'', [])] ''klines'' (Some ''1h'') ''BTCUSDT''
     = Inr {(2024, 1, 1)}
   \<and> missing_days [(''BTCUSDT-1h-2024-01-01.csv'', [])] ''klines'' (Some ''1h'') ''BTCUSDT''
       (2024, 1, 1) (2024, 1, 1) = Inr []"
  by (simp add: eval_simps missing_loop.simps)

section \<open>The missing days\<close>

text \<open>
  Claim C8. For valid dates \<open>start\<close> and \<open>end\<close>, \<open>start\<close> in the year 1000 or later and
  \<open>end\<close> before 9999-12-31, a symbol and an interval without the characters \<^verbatim>\<open>*\<close>,
  \<^verbatim>\<open>?\<close>, \<^verbatim>\<open>[\<close> and \<^verbatim>\<open>/\<close>, and a cache directory whose entry names are ASCII, the
  missing days are exactly the dates of the closed range whose file name is not in the
  cache directory, in strictly ascending order, hence without duplicates. Presence is by
  name: the content of a file plays no part.
\<close>

theorem C8_missing_days:
  assumes "valid_date start" and "valid_date end" and "end \<noteq> date_max"
    and "1000 \<le> fst start"
    and "plain symbol"
    and "data_type = ''klines'' \<longrightarrow> \<not> falsy interval \<and> plain (fmt interval)"
    and "ascii_names dir"
  shows "\<exists>ms. missing_days dir data_type interval symbol start end = Inr ms
           \<and> set ms = {d. valid_date d \<and> start \<le> d \<and> d \<le> end
                          \<and> artifact_name data_type symbol interval d \<notin> fst ` set dir}
           \<and> sorted_wrt (<) ms"
proof -
  let ?ex = "{d. valid_date d \<and>
                 name_prefix data_type symbol interval @ date_text d @ ''.csv'' \<in> fst ` set dir}"
  let ?ms = "filter (\<lambda>d. d \<notin> ?ex) (days_from start end)"
  have "missing_days dir data_type interval symbol start end = missing_loop start end ?ex []"
    by (simp add: missing_days_def existing_dates_eq [OF assms(5,6)])
  also have "\<dots> = Inr ?ms"
    using missing_loop_eq [OF assms(1-3), of ?ex "[]"] by simp
  finally have 1: "missing_days dir data_type interval symbol start end = Inr ?ms" .
  have y: "artifact_name data_type symbol interval d
             = name_prefix data_type symbol interval @ date_text d @ ''.csv''"
    if "start \<le> d" for d
  proof -
    from that have "fst start \<le> fst d" by (rule date_le_fst)
    with assms(4) have "1000 \<le> fst d" by simp
    then show ?thesis by (rule artifact_name_eq)
  qed
  have 2: "set ?ms = {d. valid_date d \<and> start \<le> d \<and> d \<le> end
                          \<and> artifact_name data_type symbol interval d \<notin> fst ` set dir}"
  proof (rule set_eqI)
    fix d
    show "d \<in> set ?ms \<longleftrightarrow>
          d \<in> {d. valid_date d \<and> start \<le> d \<and> d \<le> end
                  \<and> artifact_name data_type symbol interval d \<notin> fst ` set dir}"
    proof (cases "start \<le> d")
      case True
      show ?thesis
        unfolding set_filter set_days_from [OF assms(1)] mem_Collect_eq y [OF True]
        by blast
    next
      case False
      then show ?thesis
        unfolding set_filter set_days_from [OF assms(1)] mem_Collect_eq
        by blast
    qed
  qed
  have 3: "sorted_wrt (<) ?ms"
    using sorted_days_from [OF assms(1), of "end"] by (rule sorted_wrt_filter)
  from 1 2 3 show ?thesis by blast
qed

text \<open>An instance over the end of February of a leap year.\<close>

theorem C8_missing_days_witness:
  "valid_date (2024, 2, 28) \<and> valid_date (2024, 3, 1) \<and> (2024, 3, 1) \<noteq> date_max
   \<and> 1000 \<le> fst ((2024, 2, 28) :: date)
   \<and> plain ''BTCUSDT'' \<and> \<not> falsy (Some ''1h'') \<and> plain (fmt (Some ''1h''))
   \<and> ascii_names [(''BTCUSDT-1h-2024-02-29.csv'', ''x'')]
   \<and> (\<exists>ms. missing_days [(''BTCUSDT-1h-2024-02-29.csv'', ''x'')] ''klines'' (Some ''1h'')
              ''BTCUSDT'' (2024, 2, 28) (2024, 3, 1) = Inr ms
           \<and> set ms = {d. valid_date d \<and> (2024, 2, 28) \<le> d \<and> d \<le> (2024, 3, 1)
                          \<and> artifact_name ''klines'' ''BTCUSDT'' (Some ''1h'') d
                               \<notin> fst ` set [(''BTCUSDT-1h-2024-02-29.csv'', ''x'')]}
           \<and> sorted_wrt (<) ms)"
proof -
  have h: "valid_date (2024, 2, 28)" "valid_date (2024, 3, 1)" "(2024, 3, 1) \<noteq> date_max"
      "1000 \<le> fst ((2024, 2, 28) :: date)"
      "plain ''BTCUSDT''" "\<not> falsy (Some ''1h'')" "plain (fmt (Some ''1h''))"
      "ascii_names [(''BTCUSDT-1h-2024-02-29.csv'', ''x'')]"
    by (simp_all add: eval_simps)
  from h C8_missing_days [of "(2024, 2, 28)" "(2024, 3, 1)" "''BTCUSDT''" "''klines''"
      "Some ''1h''" "[(''BTCUSDT-1h-2024-02-29.csv'', ''x'')]"]
  show ?thesis by blast
qed

text \<open>A file of zero bytes for the second of three days: that day is not among the
  missing days.\<close>

theorem C8_counterexample:
  "map_of [(''BTCUSDT-1h-2024-01-02.csv'', [])] ''BTCUSDT-1h-2024-01-02.csv'' = Some []
   \<and> missing_days [(''BTCUSDT-1h-2024-01-02.csv'', [])] ''klines'' (Some ''1h'') ''BTCUSDT''
       (2024, 1, 1) (2024, 1, 3) = Inr [(2024, 1, 1), (2024, 1, 3)]"
  by (simp add: eval_simps missing_loop.simps)

section \<open>A range that ends before it starts\<close>





section \<open>The retry loop\<close>

lemma events_emit: "events (emit ev w) = events w @ [ev]"
  by (simp add: emit_def)

lemma events_put_file: "events (put_file dir name content w) = events w"
  by (simp add: put_file_def)

lemma events_open_write: "events (open_write dir name w) = events w @ [OpenWrite dir name]"
  by (simp add: open_write_def events_put_file events_emit)

lemma events_write_all: "events (write_all dir name data w) = events w @ [WriteAll dir name]"
  by (simp add: write_all_def events_put_file events_emit)

lemma attempt_loop_fails:
  assumes "\<forall>k. a \<le> k \<and> k < a + n \<longrightarrow> attempt_fails (remote url k)"
  shows "fst (attempt_loop remote url dir name a n w) = False
         \<and> events (snd (attempt_loop remote url dir name a n w))
             = events w @ concat (map (\<lambda>k. failed_attempt_events url dir name (remote url k))
                                      [a..<a + n])"
  using assms
proof (induction n arbitrary: a w)
  case 0
  show ?case by simp
next
  case (Suc n)
  have f: "attempt_fails (remote url a)" using Suc.prems by simp
  have r: "\<forall>k. Suc a \<le> k \<and> k < Suc a + n \<longrightarrow> attempt_fails (remote url k)"
    using Suc.prems by simp
  have u: "[a..<a + Suc n] = a # [Suc a..<Suc a + n]"
    by (simp add: upt_conv_Cons)
  note ih = Suc.IH [OF r]
  show ?case
  proof (cases "remote url a")
    case ConnectionError
    then show ?thesis
      unfolding u using ih [of "emit (Sleep 1) (emit (HttpGet url) w)"]
      by (simp add: failed_attempt_events_def events_emit)
  next
    case (Http status body)
    show ?thesis
    proof (cases "status = 200")
      case False
      with Http show ?thesis
        unfolding u using ih [of "emit (Sleep 1) (emit (HttpGet url) w)"]
        by (simp add: failed_attempt_events_def events_emit)
    next
      case True
      show ?thesis
      proof (cases body)
        case BadArchive
        with Http True show ?thesis
          unfolding u using ih [of "emit (Sleep 1) (emit (HttpGet url) w)"]
          by (simp add: failed_attempt_events_def events_emit)
      next
        case BadPayload
        with Http True show ?thesis
          unfolding u
          using ih [of "emit (Sleep 1) (open_write dir name (emit (HttpGet url) w))"]
          by (simp add: failed_attempt_events_def events_emit events_open_write)
      next
        case (Payload data)
        with Http True f show ?thesis by (simp add: attempt_fails_def)
      qed
    qed
  qed
qed

lemma count_requests:
  "length (filter (\<lambda>e. e = HttpGet url)
     (concat (map (\<lambda>k. failed_attempt_events url dir name (remote url k)) [a..<a + n]))) = n"
  by (induction n) (simp_all add: failed_attempt_events_def)

lemma count_sleeps:
  "length (filter (\<lambda>e. e = Sleep 1)
     (concat (map (\<lambda>k. failed_attempt_events url dir name (remote url k)) [a..<a + n]))) = n"
  by (induction n) (simp_all add: failed_attempt_events_def)

section \<open>What a fetch does to the files\<close>





text \<open>One turn of the loop: it ends with the file saved, or goes on from a world that has
  one more request and, at the destination, what it had or an empty file.\<close>

lemma attempt_loop_step:
  "(\<exists>data. remote url a = Http 200 (Payload data)
      \<and> attempt_loop remote url dir name a (Suc n) w
          = (True, write_all dir name data (open_write dir name (emit (HttpGet url) w))))
   \<or> (remote url a \<noteq> Http 200 BadPayload \<and> attempt_fails (remote url a)
      \<and> attempt_loop remote url dir name a (Suc n) w
          = attempt_loop remote url dir name (Suc a) n (emit (Sleep 1) (emit (HttpGet url) w)))
   \<or> (remote url a = Http 200 BadPayload
      \<and> attempt_loop remote url dir name a (Suc n) w
          = attempt_loop remote url dir name (Suc a) n
              (emit (Sleep 1) (open_write dir name (emit (HttpGet url) w))))"
  by (cases "remote url a")
     (auto simp: attempt_fails_def Let_def split: zip_body.splits)



section \<open>Failed fetches and the gathering of the tasks\<close>




text \<open>The operations of a fetch: requests for its URL, pauses, and the opening and
  writing of its own destination.\<close>

lemma attempt_loop_events:
  "\<exists>es. events (snd (attempt_loop remote url dir name a m w)) = events w @ es
         \<and> set es \<subseteq> {HttpGet url, OpenWrite dir name, WriteAll dir name, Sleep 1}
         \<and> (0 < m \<longrightarrow> HttpGet url \<in> set es)"
proof (induction m arbitrary: a w)
  case 0
  show ?case by simp
next
  case (Suc m)
  from attempt_loop_step [of remote url a dir name m w] show ?case
  proof (elim disjE exE conjE)
    fix data
    assume "attempt_loop remote url dir name a (Suc m) w
          = (True, write_all dir name data (open_write dir name (emit (HttpGet url) w)))"
    then have "events (snd (attempt_loop remote url dir name a (Suc m) w))
        = events w @ [HttpGet url, OpenWrite dir name, WriteAll dir name]"
      by (simp add: events_write_all events_open_write events_emit)
    then show ?thesis by simp
  next
    assume e: "attempt_loop remote url dir name a (Suc m) w
          = attempt_loop remote url dir name (Suc a) m (emit (Sleep 1) (emit (HttpGet url) w))"
    from Suc.IH [of "Suc a" "emit (Sleep 1) (emit (HttpGet url) w)"]
    obtain es where es: "events (snd (attempt_loop remote url dir name (Suc a) m
          (emit (Sleep 1) (emit (HttpGet url) w)))) = events w @ [HttpGet url, Sleep 1] @ es"
        "set es \<subseteq> {HttpGet url, OpenWrite dir name, WriteAll dir name, Sleep 1}"
      by (auto simp: events_emit)
    have "events (snd (attempt_loop remote url dir name a (Suc m) w))
            = events w @ ([HttpGet url, Sleep 1] @ es)
          \<and> set ([HttpGet url, Sleep 1] @ es)
              \<subseteq> {HttpGet url, OpenWrite dir name, WriteAll dir name, Sleep 1}
          \<and> (0 < Suc m \<longrightarrow> HttpGet url \<in> set ([HttpGet url, Sleep 1] @ es))"
      using es unfolding e by simp
    then show ?thesis by blast
  next
    assume e: "attempt_loop remote url dir name a (Suc m) w
          = attempt_loop remote url dir name (Suc a) m
              (emit (Sleep 1) (open_write dir name (emit (HttpGet url) w)))"
    from Suc.IH [of "Suc a" "emit (Sleep 1) (open_write dir name (emit (HttpGet url) w))"]
    obtain es where es: "events (snd (attempt_loop remote url dir name (Suc a) m
          (emit (Sleep 1) (open_write dir name (emit (HttpGet url) w)))))
            = events w @ [HttpGet url, OpenWrite dir name, Sleep 1] @ es"
        "set es \<subseteq> {HttpGet url, OpenWrite dir name, WriteAll dir name, Sleep 1}"
      by (auto simp: events_emit events_open_write)
    have "events (snd (attempt_loop remote url dir name a (Suc m) w))
            = events w @ ([HttpGet url, OpenWrite dir name, Sleep 1] @ es)
          \<and> set ([HttpGet url, OpenWrite dir name, Sleep 1] @ es)
              \<subseteq> {HttpGet url, OpenWrite dir name, WriteAll dir name, Sleep 1}
          \<and> (0 < Suc m \<longrightarrow> HttpGet url \<in> set ([HttpGet url, OpenWrite dir name, Sleep 1] @ es))"
      using es unfolding e by simp
    then show ?thesis by blast
  qed
qed

lemma gather_events: "\<exists>es. events (gather remote dir tasks w) = events w @ es"
proof (induction tasks arbitrary: w)
  case Nil
  show ?case by simp
next
  case (Cons t tasks)
  obtain url name where t: "t = (url, name)" by (cases t)
  let ?w1 = "snd (download_and_save_csv remote url dir name 3 w)"
  from attempt_loop_events [of remote url dir name 1 "nat 3" w]
  obtain es1 where "events ?w1 = events w @ es1"
    unfolding download_and_save_csv_def by blast
  moreover from Cons.IH [of ?w1] obtain es2 where
    "events (gather remote dir tasks ?w1) = events ?w1 @ es2" by blast
  ultimately have "events (gather remote dir (t # tasks) w) = events w @ (es1 @ es2)"
    unfolding t by simp
  then show ?case by blast
qed

lemma gather_reaches:
  assumes "(url, name) \<in> set tasks"
  shows "HttpGet url \<in> set (events (gather remote dir tasks w))"
  using assms
proof (induction tasks arbitrary: w)
  case Nil
  then show ?case by simp
next
  case (Cons t tasks)
  obtain u n where t: "t = (u, n)" by (cases t)
  let ?w1 = "snd (download_and_save_csv remote u dir n 3 w)"
  have g: "gather remote dir (t # tasks) w = gather remote dir tasks ?w1"
    unfolding t by simp
  show ?case
  proof (cases "(url, name) = t")
    case True
    then have u: "u = url" using t by simp
    from attempt_loop_events [of remote u dir n 1 "nat 3" w]
    have "HttpGet url \<in> set (events ?w1)"
      unfolding download_and_save_csv_def u by auto
    moreover from gather_events [of remote dir tasks ?w1] obtain es where
      "events (gather remote dir tasks ?w1) = events ?w1 @ es" by blast
    ultimately show ?thesis unfolding g by simp
  next
    case False
    with Cons.prems have "(url, name) \<in> set tasks" by auto
    from Cons.IH [OF this, of ?w1] show ?thesis unfolding g .
  qed
qed

section \<open>Bounded retries\<close>

text \<open>
  Claim C5. When every attempt of a fetch fails (the request fails, the status is not
  200, or the archive does not decompress), \<^verbatim>\<open>download_and_save_csv\<close> returns
  \<^verbatim>\<open>False\<close>: it raises nothing. It has made exactly \<open>retries\<close> requests, each
  followed by a pause of one second (the last one too), and nothing else but the opening
  of the destination in an attempt whose archive failed while it was read. The gathering
  calls every fetch with 3 retries, goes on with the other tasks after a fetch that
  failed, and every task makes its request.
\<close>

theorem C5_bounded_retries:
  assumes "\<forall>k. 1 \<le> k \<and> k \<le> nat retries \<longrightarrow> attempt_fails (remote url k)"
  shows "\<exists>w' new.
           download_and_save_csv remote url dir name retries w = (False, w')
           \<and> events w' = events w @ new
           \<and> new = concat (map (\<lambda>k. failed_attempt_events url dir name (remote url k))
                              [1..<Suc (nat retries)])
           \<and> length (filter (\<lambda>e. e = HttpGet url) new) = nat retries
           \<and> length (filter (\<lambda>e. e = Sleep 1) new) = nat retries
           \<and> gather remote dir ((url, name) # tasks) w
               = gather remote dir tasks (snd (download_and_save_csv remote url dir name 3 w))
           \<and> (\<forall>task \<in> set tasks.
                 HttpGet (fst task) \<in> set (events (gather remote dir ((url, name) # tasks) w)))"
proof -
  let ?r = "attempt_loop remote url dir name 1 (nat retries) w"
  let ?new = "concat (map (\<lambda>k. failed_attempt_events url dir name (remote url k))
                        [1..<1 + nat retries])"
  have h: "\<forall>k. 1 \<le> k \<and> k < 1 + nat retries \<longrightarrow> attempt_fails (remote url k)"
    using assms by simp
  from attempt_loop_fails [where a = 1 and n = "nat retries" and remote = remote and url = url
      and dir = dir and name = name and w = w, OF h]
  have f: "fst ?r = False" and e: "events (snd ?r) = events w @ ?new" by simp_all
  from f have 1: "download_and_save_csv remote url dir name retries w = (False, snd ?r)"
    unfolding download_and_save_csv_def by (cases ?r) simp
  have 2: "length (filter (\<lambda>e. e = HttpGet url) ?new) = nat retries"
    by (rule count_requests)
  have 3: "length (filter (\<lambda>e. e = Sleep 1) ?new) = nat retries"
    by (rule count_sleeps)
  have 4: "HttpGet (fst task) \<in> set (events (gather remote dir ((url, name) # tasks) w))"
    if "task \<in> set tasks" for task
  proof -
    from that have "(fst task, snd task) \<in> set ((url, name) # tasks)" by simp
    then show ?thesis by (rule gather_reaches)
  qed
  have 5: "gather remote dir ((url, name) # tasks) w
             = gather remote dir tasks (snd (download_and_save_csv remote url dir name 3 w))"
    by simp
  from 1 e 2 3 4 5 show ?thesis by simp
qed

text \<open>An instance: a failed request, a status 404 and a broken archive, then a second task.\<close>

theorem C5_bounded_retries_witness:
  "attempt_fails ConnectionError \<and> attempt_fails (Http 404 (Payload ''a,b''))
   \<and> attempt_fails (Http 200 BadPayload)
   \<and> (\<exists>w' new.
        download_and_save_csv
            (\<lambda>_ k. if k = 1 then ConnectionError
                    else if k = 2 then Http 404 (Payload ''a,b'') else Http 200 BadPayload)
            ''u/X-2024-01-01.zip'' [''cache''] ''X-2024-01-01.csv'' 3 empty_world = (False, w')
        \<and> events w' = events empty_world @ new
        \<and> new = [HttpGet ''u/X-2024-01-01.zip'', Sleep 1,
                  HttpGet ''u/X-2024-01-01.zip'', Sleep 1,
                  HttpGet ''u/X-2024-01-01.zip'', OpenWrite [''cache''] ''X-2024-01-01.csv'', Sleep 1]
        \<and> length (filter (\<lambda>e. e = HttpGet ''u/X-2024-01-01.zip'') new) = nat 3
        \<and> length (filter (\<lambda>e. e = Sleep 1) new) = nat 3)
   \<and> HttpGet ''u/X-2024-01-02.zip''
       \<in> set (events (gather
            (\<lambda>_ k. if k = 1 then ConnectionError
                    else if k = 2 then Http 404 (Payload ''a,b'') else Http 200 BadPayload)
            [''cache'']
            [(''u/X-2024-01-01.zip'', ''X-2024-01-01.csv''),
             (''u/X-2024-01-02.zip'', ''X-2024-01-02.csv'')] empty_world))"
proof -
  let ?remote = "\<lambda>(_ :: string) (k :: nat). if k = 1 then ConnectionError
                    else if k = 2 then Http 404 (Payload ''a,b'') else Http 200 BadPayload"
  have h: "\<forall>k. 1 \<le> k \<and> k \<le> nat 3 \<longrightarrow> attempt_fails (?remote ''u/X-2024-01-01.zip'' k)"
    by (simp add: attempt_fails_def)
  have a: "attempt_fails ConnectionError" "attempt_fails (Http 404 (Payload ''a,b''))"
      "attempt_fails (Http 200 BadPayload)"
    by (simp_all add: attempt_fails_def)
  have u: "[1..<Suc (nat 3)] = [1, 2, 3]"
    by (simp add: upt_conv_Cons)
  from C5_bounded_retries [where remote = ?remote and url = "''u/X-2024-01-01.zip''"
      and retries = 3 and dir = "[''cache'']" and name = "''X-2024-01-01.csv''"
      and w = empty_world
      and tasks = "[(''u/X-2024-01-02.zip'', ''X-2024-01-02.csv'')]", OF h]
  obtain w' new where
    "download_and_save_csv ?remote ''u/X-2024-01-01.zip'' [''cache''] ''X-2024-01-01.csv'' 3
       empty_world = (False, w')"
    "events w' = events empty_world @ new"
    "new = concat (map (\<lambda>k. failed_attempt_events ''u/X-2024-01-01.zip'' [''cache'']
                         ''X-2024-01-01.csv'' (?remote ''u/X-2024-01-01.zip'' k))
                 [1..<Suc (nat 3)])"
    "length (filter (\<lambda>e. e = HttpGet ''u/X-2024-01-01.zip'') new) = nat 3"
    "length (filter (\<lambda>e. e = Sleep 1) new) = nat 3"
    "HttpGet ''u/X-2024-01-02.zip''
       \<in> set (events (gather ?remote [''cache'']
            [(''u/X-2024-01-01.zip'', ''X-2024-01-01.csv''),
             (''u/X-2024-01-02.zip'', ''X-2024-01-02.csv'')] empty_world))"
    by auto
  moreover from this(3) have "new = [HttpGet ''u/X-2024-01-01.zip'', Sleep 1,
                  HttpGet ''u/X-2024-01-01.zip'', Sleep 1,
                  HttpGet ''u/X-2024-01-01.zip'', OpenWrite [''cache''] ''X-2024-01-01.csv'', Sleep 1]"
    unfolding u by (simp add: failed_attempt_events_def)
  ultimately show ?thesis using a by blast
qed

section \<open>Writing the destination\<close>





section \<open>The loop of the assembly\<close>

lemma combine_loop_days:
  assumes "valid_date s" and "valid_date e" and "e \<noteq> date_max"
  shows "combine_loop read_csv dir symbol interval s e dfs
           = combine_days read_csv dir symbol interval (days_from s e) dfs"
  using assms
proof (induction read_csv dir symbol interval s e dfs rule: combine_loop.induct)
  case (1 read_csv dir symbol interval s e dfs)
  show ?case
  proof (cases "s \<le> e")
    case False
    then show ?thesis
      by (simp add: combine_loop.simps [of read_csv dir symbol interval s e]
            days_from.simps [of s e])
  next
    case True
    from no_overflow_step [OF 1(3) 1(4) 1(5) True] obtain s' where s': "add_one_day s = Inr s'"
      by blast
    have v: "valid_date s'" using 1(3) s' by (rule add_one_day_valid)
    have d: "days_from s e = s # days_from s' e"
      using True s' by (simp add: days_from.simps [of s e])
    show ?thesis
    proof (cases "day_file dir symbol interval s")
      case None
      then have n: "map_of dir (symbol @ ''-'' @ interval @ ''-'' @ strftime s @ ''.csv'') = None"
        by (simp add: day_file_def)
      have "combine_loop read_csv dir symbol interval s e dfs
              = combine_loop read_csv dir symbol interval s' e dfs"
        using True s' n by (simp add: combine_loop.simps [of read_csv dir symbol interval s e])
      also have "\<dots> = combine_days read_csv dir symbol interval (days_from s' e) dfs"
        using 1(1) [OF True refl n s' v 1(4) 1(5)] .
      finally show ?thesis unfolding d using None by simp
    next
      case (Some content)
      then have c: "map_of dir (symbol @ ''-'' @ interval @ ''-'' @ strftime s @ ''.csv'') = Some content"
        by (simp add: day_file_def)
      show ?thesis
      proof (cases "read_csv content")
        case None
        then show ?thesis
          unfolding d using True c Some
          by (simp add: combine_loop.simps [of read_csv dir symbol interval s e])
      next
        case (Some df)
        have "combine_loop read_csv dir symbol interval s e dfs
                = combine_loop read_csv dir symbol interval s' e (dfs @ [df])"
          using True s' c Some
          by (simp add: combine_loop.simps [of read_csv dir symbol interval s e])
        also have "\<dots> = combine_days read_csv dir symbol interval (days_from s' e) (dfs @ [df])"
          using 1(2) [OF True refl c Some s' v 1(4) 1(5)] .
        finally show ?thesis
          unfolding d using \<open>day_file dir symbol interval s = Some content\<close> Some by simp
      qed
    qed
  qed
qed

lemma combine_days_unreadable:
  "\<exists>d \<in> set ds. unreadable read_csv dir symbol interval d
     \<Longrightarrow> combine_days read_csv dir symbol interval ds dfs = Inl ParseError"
  by (induction ds arbitrary: dfs)
     (auto simp: unreadable_def split: option.splits)

lemma combine_days_readable:
  "\<forall>d \<in> set ds. \<not> unreadable read_csv dir symbol interval d
     \<Longrightarrow> combine_days read_csv dir symbol interval ds dfs
           = Inr (dfs @ map (day_rows read_csv dir symbol interval)
                          (filter (\<lambda>d. day_file dir symbol interval d \<noteq> None) ds))"
  by (induction ds arbitrary: dfs)
     (auto simp: unreadable_def day_rows_def split: option.splits)

section \<open>What the assembly returns\<close>

lemma gcd_after_download:
  assumes "download_binance_data remote symbol start end ''https://data.binance.vision/data/''
             instrument market timeframe data_type (Some interval) data_dir
             max_concurrent_downloads w = (Return (), w')"
  shows "get_combined_dataframe read_csv remote symbol interval start end data_dir instrument
           market timeframe data_type max_concurrent_downloads w
         = (combine_daily_csvs read_csv
              (files w' (foldl pjoin [data_dir]
                           [instrument, market, timeframe, data_type, symbol, interval]))
              symbol interval start end, w')"
  using assms by (simp add: get_combined_dataframe_def)

lemma combine_daily_csvs_eq:
  assumes "valid_date start" and "valid_date end" and "end \<noteq> date_max"
  shows "combine_daily_csvs read_csv dir symbol interval start end =
           (if \<exists>d \<in> set (days_from start end). unreadable read_csv dir symbol interval d
            then Raise ParseError
            else if \<forall>d \<in> set (days_from start end). day_file dir symbol interval d = None
            then Raise (ValueError ''No data found, exiting.'')
            else Return (concat (map (day_rows read_csv dir symbol interval)
                     (filter (\<lambda>d. day_file dir symbol interval d \<noteq> None)
                        (days_from start end)))))"
proof (cases "\<exists>d \<in> set (days_from start end). unreadable read_csv dir symbol interval d")
  case True
  then show ?thesis
    by (simp add: combine_daily_csvs_def combine_loop_days [OF assms] combine_days_unreadable)
next
  case False
  then have r: "\<forall>d \<in> set (days_from start end). \<not> unreadable read_csv dir symbol interval d"
    by blast
  have e: "filter (\<lambda>d. day_file dir symbol interval d \<noteq> None) (days_from start end) = []
             \<longleftrightarrow> (\<forall>d \<in> set (days_from start end). day_file dir symbol interval d = None)"
    by (simp add: filter_empty_conv)
  show ?thesis
    using False e
    by (simp add: combine_daily_csvs_def combine_loop_days [OF assms]
          combine_days_readable [OF r])
qed

lemma sorted_constant: "\<forall>x \<in> set xs. x = (d :: 'a :: linorder) \<Longrightarrow> sorted xs"
  by (induction xs) auto

lemma sorted_concat_days:
  fixes ds :: "'a :: linorder list"
  assumes "sorted ds" and "\<forall>d \<in> set ds. \<forall>r \<in> set (rows d). f r = d"
  shows "sorted (map f (concat (map rows ds)))"
  using assms
proof (induction ds)
  case Nil
  show ?case by simp
next
  case (Cons d ds)
  have 1: "sorted (map f (rows d))"
    using Cons.prems(2) by (intro sorted_constant [of _ d]) simp
  have 2: "sorted (map f (concat (map rows ds)))"
    using Cons.IH Cons.prems by simp
  have 3: "x \<le> y" if "x \<in> set (map f (rows d))" and "y \<in> set (map f (concat (map rows ds)))"
    for x y
  proof -
    from that(1) Cons.prems(2) have x: "x = d" by auto
    from that(2) obtain d' r where "d' \<in> set ds" "r \<in> set (rows d')" "y = f r" by auto
    with Cons.prems(2) have "y \<in> set ds" by auto
    with Cons.prems(1) x show ?thesis by auto
  qed
  from 1 2 3 show ?case by (simp add: sorted_append)
qed

lemma sorted_days: "valid_date s \<Longrightarrow> sorted (days_from s e)"
  using sorted_days_from [of s e] by (simp add: strict_sorted_imp_sorted)

lemma start_in_days: "s \<le> e \<Longrightarrow> s \<in> set (days_from s e)"
  by (simp add: days_from.simps [of s e])

end
